theory Spec2Isabelle
  imports Complex_Main "HOL-Library.Word"
begin

section \<open>Constants and faults\<close>

text \<open>
  The constants of \<^verbatim>\<open>main.go\<close>: the cap of the buffer queue and the sample rate.
\<close>

definition QUEUE :: nat where
  "QUEUE = 500"

definition SampleRate :: real where
  "SampleRate = 10000"

text \<open>
  The run-time panics the modelled functions can raise: indexing a slice outside its
  length, a slice expression whose bound exceeds the capacity, and a negative length
  given to \<^verbatim>\<open>make\<close>.
\<close>

datatype fault = IndexOutOfRange | SliceBoundsOutOfRange | NegativeLength

section \<open>Arithmetic on float32\<close>

text \<open>
  A \<^verbatim>\<open>float32\<close> value is modelled by the real number it denotes. Every float32
  operation of the source is the exact operation on reals followed by a rounding function
  \<open>rnd\<close>, which every definition below takes as its first argument. The theorems assume
  of it only what IEEE rounding to nearest gives on the values the program meets: it is
  monotone, leaves 0 and 1 alone, and leaves its own results alone. \<open>exact\<close> is the
  rounding that does nothing (arithmetic without rounding error).
\<close>

definition rounding :: "(real \<Rightarrow> real) \<Rightarrow> bool" where
  "rounding rnd \<longleftrightarrow>
     (\<forall>x y. x \<le> y \<longrightarrow> rnd x \<le> rnd y) \<and> rnd 0 = 0 \<and> rnd 1 = 1 \<and> (\<forall>x. rnd (rnd x) = rnd x)"

definition exact :: "real \<Rightarrow> real" where
  "exact x = x"

section \<open>Signals\<close>

text \<open>
  \<^verbatim>\<open>type Oscillator func() float32\<close> is a closure: code together with the variables
  it captured. It is modelled by a function from the captured variables to the sample and
  the captured variables after the call.
\<close>

type_synonym 's Oscillator = "'s \<Rightarrow> real \<times> 's"

text \<open>The captured variables after \<open>i\<close> calls of the closure \<open>f\<close>.\<close>

primrec calls :: "'s Oscillator \<Rightarrow> nat \<Rightarrow> 's \<Rightarrow> 's" where
  "calls f 0 s = s"
| "calls f (Suc i) s = calls f i (snd (f s))"

subsection \<open>GenOscillator\<close>

text \<open>
  The variables \<^verbatim>\<open>dt\<close>, \<^verbatim>\<open>k\<close>, \<^verbatim>\<open>T\<close> and \<^verbatim>\<open>t\<close> captured by the closure that
  \<^verbatim>\<open>GenOscillator\<close> returns. Only \<^verbatim>\<open>t\<close> is assigned by a call. \<^verbatim>\<open>dt\<close> is a
  constant expression, rounded once; \<open>2.0 * Pi\<close> is a
  constant expression over \<open>Pi = float32(math.Pi)\<close>; \<open>f32.Sin\<close> is the parameter
  \<open>fsin\<close>.
\<close>

record OscVars =
  o_dt :: real
  o_k :: real
  o_T :: real
  o_t :: real

definition GenOscillator :: "(real \<Rightarrow> real) \<Rightarrow> real \<Rightarrow> OscVars" where
  "GenOscillator rnd freq =
     \<lparr>o_dt = rnd (1 / SampleRate),
      o_k = rnd (2 * rnd pi * freq),
      o_T = rnd (1 / freq),
      o_t = 0\<rparr>"

definition Oscillator_call :: "(real \<Rightarrow> real) \<Rightarrow> (real \<Rightarrow> real) \<Rightarrow> OscVars Oscillator" where
  "Oscillator_call rnd fsin v =
     (let res = fsin (rnd (o_k v * o_t v));
          t1 = rnd (o_t v + o_dt v);
          t2 = (if t1 > o_T v then rnd (t1 - o_T v) else t1)
      in (res, v\<lparr>o_t := t2\<rparr>))"

subsection \<open>GenEnvelope\<close>

text \<open>
  The rates that \<^verbatim>\<open>GenEnvelope\<close> computes once, and the two variables its closure
  assigns: the flag \<^verbatim>\<open>top\<close> and the \<open>gain\<close>.
\<close>

definition env_dt :: "(real \<Rightarrow> real) \<Rightarrow> real" where
  "env_dt rnd = rnd (1 / SampleRate)"

definition attackd :: "(real \<Rightarrow> real) \<Rightarrow> real" where
  "attackd rnd = rnd (env_dt rnd / rnd (1 / 100))"

definition dekeyd :: "(real \<Rightarrow> real) \<Rightarrow> real" where
  "dekeyd rnd = rnd (env_dt rnd / rnd (3 / 100))"

definition sustainlevel :: "(real \<Rightarrow> real) \<Rightarrow> real" where
  "sustainlevel rnd = rnd (3 / 10)"

definition sustaind :: "(real \<Rightarrow> real) \<Rightarrow> real" where
  "sustaind rnd = rnd (env_dt rnd / 7)"

definition released :: "(real \<Rightarrow> real) \<Rightarrow> real" where
  "released rnd = rnd (env_dt rnd / rnd (8 / 10))"

record EnvVars =
  top' :: bool
  gain :: real

definition GenEnvelope :: EnvVars where
  "GenEnvelope = \<lparr>top' = False, gain = 0\<rparr>"

text \<open>
  The assignments to \<^verbatim>\<open>top\<close> and \<open>gain\<close> that one call makes, before it calls the wrapped
  signal; \<open>press\<close> is the value of \<^verbatim>\<open>*press\<close> at the call.
\<close>

definition Envelope_tick :: "(real \<Rightarrow> real) \<Rightarrow> bool \<Rightarrow> EnvVars \<Rightarrow> EnvVars" where
  "Envelope_tick rnd press e =
     (if press then
        (if \<not> top' e then
           (let g = rnd (gain e + attackd rnd)
            in if g > 1 then \<lparr>top' = True, gain = 1\<rparr> else e\<lparr>gain := g\<rparr>)
         else
           (let g = (if gain e > sustainlevel rnd then rnd (gain e - dekeyd rnd)
                     else rnd (gain e - sustaind rnd))
            in if g < 0 then e\<lparr>gain := 0\<rparr> else e\<lparr>gain := g\<rparr>))
      else
        (let g = rnd (gain e - released rnd)
         in if g < 0 then \<lparr>top' = False, gain = 0\<rparr> else \<lparr>top' = False, gain = g\<rparr>))"

definition Envelope_call ::
  "(real \<Rightarrow> real) \<Rightarrow> 's Oscillator \<Rightarrow> bool \<Rightarrow> (EnvVars \<times> 's) Oscillator" where
  "Envelope_call rnd f press = (\<lambda>(e, s).
     let e' = Envelope_tick rnd press e
     in case f s of (x, s') \<Rightarrow> (rnd (gain e' * x), (e', s')))"

text \<open>The envelope's variables after a sequence of calls, one flag value per call.\<close>

primrec Envelope_run :: "(real \<Rightarrow> real) \<Rightarrow> bool list \<Rightarrow> EnvVars \<Rightarrow> EnvVars" where
  "Envelope_run rnd [] e = e"
| "Envelope_run rnd (p # ps) e = Envelope_run rnd ps (Envelope_tick rnd p e)"

section \<open>Piano\<close>

text \<open>
  \<^verbatim>\<open>Piano\<close> holds the flags and the top-level signal, a closure of some model \<open>'s\<close>. A key is a Go \<^verbatim>\<open>int\<close>; indexing outside the slice panics.
\<close>

record 's Piano =
  notes' :: "bool list"
  oscillator_p :: 's

definition NoteOn :: "'s Piano \<Rightarrow> int \<Rightarrow> fault + 's Piano" where
  "NoteOn p key =
     (if 0 \<le> key \<and> key < int (length (notes' p))
      then Inr (p\<lparr>notes' := (notes' p)[nat key := True]\<rparr>)
      else Inl IndexOutOfRange)"

definition NoteOff :: "'s Piano \<Rightarrow> int \<Rightarrow> fault + 's Piano" where
  "NoteOff p key =
     (if 0 \<le> key \<and> key < int (length (notes' p))
      then Inr (p\<lparr>notes' := (notes' p)[nat key := False]\<rparr>)
      else Inl IndexOutOfRange)"

section \<open>Slices\<close>

text \<open>
  A Go slice is a window on a backing array: \<open>elems\<close> are the elements below its length
  and \<open>spare\<close> the cells of the array between its length and its capacity. The slice
  expression \<^verbatim>\<open>s[:n]\<close> of a slice is in range up to the capacity, not the length, and
  panics beyond it. \<^verbatim>\<open>append\<close> writes into the spare cells when they suffice and moves
  to a new zeroed array otherwise; the capacity of the new array is chosen by the run
  time and is the parameter \<open>grow\<close> (old capacity, needed length), never taken below the
  needed length.
\<close>

record 'a slice =
  elems :: "'a list"
  spare :: "'a list"

definition len :: "'a slice \<Rightarrow> nat" where
  "len s = length (elems s)"

definition cap :: "'a slice \<Rightarrow> nat" where
  "cap s = length (elems s) + length (spare s)"

definition nil_slice :: "'a slice" where
  "nil_slice = \<lparr>elems = [], spare = []\<rparr>"

definition slice_to :: "'a slice \<Rightarrow> int \<Rightarrow> fault + 'a slice" where
  "slice_to s n =
     (if 0 \<le> n \<and> n \<le> int (cap s)
      then Inr \<lparr>elems = take (nat n) (elems s @ spare s), spare = drop (nat n) (elems s @ spare s)\<rparr>
      else Inl SliceBoundsOutOfRange)"

definition append_slice :: "(nat \<Rightarrow> nat \<Rightarrow> nat) \<Rightarrow> 'a::zero slice \<Rightarrow> 'a list \<Rightarrow> 'a slice" where
  "append_slice grow s xs =
     (if length xs \<le> length (spare s)
      then \<lparr>elems = elems s @ xs, spare = drop (length xs) (spare s)\<rparr>
      else \<lparr>elems = elems s @ xs,
            spare = replicate (max (len s + length xs) (grow (cap s) (len s + length xs))
                               - (len s + length xs)) 0\<rparr>)"

section \<open>The audio device\<close>

text \<open>
  Modelled from the spec: package \<^verbatim>\<open>golang.org/x/mobile/exp/audio/al\<close>, of which the
  source only has the calls. The state keeps what the capability interface of the spec
  names: the buffer names generated and not deleted, the buffers queued on the source, the
  PCM data submitted into a buffer, and whether the source is playing. A buffer name is an
  unsigned number; \<open>GenBuffers\<close> gives \<open>q\<close> names never given before and panics on a
  negative count, as \<^verbatim>\<open>make\<close> does. The count the device answers to
  \<^verbatim>\<open>BuffersProcessed\<close> is an input of \<open>Play\<close>.
\<close>

type_synonym Buffer = nat

record Device =
  fresh :: nat
  allocated :: "Buffer set"
  queued :: "Buffer list"
  bufdata :: "Buffer \<rightharpoonup> 8 word list"
  playing :: bool

definition GenBuffers :: "int \<Rightarrow> Device \<Rightarrow> fault + Buffer list \<times> Device" where
  "GenBuffers q d =
     (if q < 0 then Inl NegativeLength
      else Inr ([fresh d ..< fresh d + nat q],
                d\<lparr>fresh := fresh d + nat q,
                  allocated := allocated d \<union> set [fresh d ..< fresh d + nat q]\<rparr>))"

definition BufferData :: "Buffer \<Rightarrow> 8 word list \<Rightarrow> Device \<Rightarrow> Device" where
  "BufferData b buf d = d\<lparr>bufdata := (bufdata d)(b \<mapsto> buf)\<rparr>"

definition QueueBuffers :: "Buffer list \<Rightarrow> Device \<Rightarrow> Device" where
  "QueueBuffers bs d = d\<lparr>queued := queued d @ bs\<rparr>"

definition UnqueueBuffers :: "Buffer list \<Rightarrow> Device \<Rightarrow> Device" where
  "UnqueueBuffers bs d = d\<lparr>queued := filter (\<lambda>b. b \<notin> set bs) (queued d)\<rparr>"

definition DeleteBuffers :: "Buffer list \<Rightarrow> Device \<Rightarrow> Device" where
  "DeleteBuffers bs d =
     d\<lparr>allocated := allocated d - set bs,
       bufdata := (\<lambda>b. if b \<in> set bs then None else bufdata d b)\<rparr>"

definition PlaySources :: "Device \<Rightarrow> Device" where
  "PlaySources d = d\<lparr>playing := True\<rparr>"

definition StopSources :: "Device \<Rightarrow> Device" where
  "StopSources d = d\<lparr>playing := False\<rparr>"

section \<open>Context\<close>

text \<open>
  \<^verbatim>\<open>Context\<close>: the source name, the queue of buffer names and the signal, a closure
  kept as its code \<open>oscillator\<close> and the variables \<open>captured\<close> by it, which a call
  updates. The mutex is not modelled: one call runs at a time.
\<close>

record 's Context =
  source :: nat
  queue :: "Buffer slice"
  oscillator :: "'s Oscillator"
  captured :: 's

definition NewContext :: "nat \<Rightarrow> 's Oscillator \<Rightarrow> 's \<Rightarrow> 's Context" where
  "NewContext src osc st =
     \<lparr>source = src, queue = \<lparr>elems = [], spare = []\<rparr>, oscillator = osc, captured = st\<rparr>"

subsection \<open>One sample\<close>

text \<open>
  \<^verbatim>\<open>int16(float32(92767) * f)\<close>: the product is rounded to float32 and converted by
  discarding the fraction. When the integer does not fit 16 bits the result of the
  conversion depends on the implementation: it is the parameter \<open>oor\<close>.
  \<^verbatim>\<open>PutUint16\<close> stores the low byte first.
\<close>

definition volume :: real where
  "volume = 92767"

definition trunc :: "real \<Rightarrow> int" where
  "trunc x = (if 0 \<le> x then \<lfloor>x\<rfloor> else \<lceil>x\<rceil>)"

definition to_int16 :: "(real \<Rightarrow> 16 word) \<Rightarrow> real \<Rightarrow> 16 word" where
  "to_int16 oor x =
     (if - 32768 \<le> trunc x \<and> trunc x \<le> 32767 then word_of_int (trunc x) else oor x)"

definition PutUint16 :: "8 word list \<Rightarrow> nat \<Rightarrow> 16 word \<Rightarrow> 8 word list" where
  "PutUint16 buf n v = buf[n := ucast v, n + 1 := ucast (drop_bit 8 v)]"

text \<open>
  What the spec asks of a sample, in its words: \<open>round(32767 * clamp(sample, -1, 1))\<close>
  as a signed 16-bit integer.
\<close>

definition spec_sample16 :: "real \<Rightarrow> 16 word" where
  "spec_sample16 s = word_of_int (round (32767 * max (- 1) (min 1 s)))"

subsection \<open>Play\<close>

text \<open>The loop over \<^verbatim>\<open>n\<close> that fills \<^verbatim>\<open>buf\<close>, two bytes for each call of the signal.\<close>

function Play_fill ::
  "(real \<Rightarrow> real) \<Rightarrow> (real \<Rightarrow> 16 word) \<Rightarrow> nat \<Rightarrow> 8 word list \<Rightarrow> 's Context
   \<Rightarrow> 8 word list \<times> 's Context" where
  "Play_fill rnd oor n buf c =
     (if n < 2048 then
        (case oscillator c (captured c) of (f, s') \<Rightarrow>
           let v = to_int16 oor (rnd (volume * f))
           in Play_fill rnd oor (n + 2) (PutUint16 buf n v) (c\<lparr>captured := s'\<rparr>))
      else (buf, c))"
  by pat_completeness auto
termination
  by (relation "measure (\<lambda>(rnd, oor, n, buf, c). 2048 - n)") auto

declare Play_fill.simps [simp del]

text \<open>
  A call either returns, leaving a device and a context, or panics: then the outcome is the
  fault together with the device and the context as they were at the panic.
\<close>

type_synonym 's outcome = "fault \<times> Device \<times> 's Context + Device \<times> 's Context"

text \<open>
  The body of the \<^verbatim>\<open>for len(c.queue) < QUEUE\<close> loop. \<^verbatim>\<open>b[0]\<close> panics when
  \<^verbatim>\<open>GenBuffers\<close> gave no buffer.
\<close>

definition Play_body ::
  "(nat \<Rightarrow> nat \<Rightarrow> nat) \<Rightarrow> (real \<Rightarrow> real) \<Rightarrow> (real \<Rightarrow> 16 word) \<Rightarrow> int
   \<Rightarrow> Device \<times> 's Context \<Rightarrow> 's outcome" where
  "Play_body grow rnd oor q dc =
     (case dc of (d, c) \<Rightarrow>
        case GenBuffers q d of
          Inl e \<Rightarrow> Inl (e, d, c)
        | Inr (b, d1) \<Rightarrow>
            (case Play_fill rnd oor 0 (replicate 2048 0) c of (buf, c1) \<Rightarrow>
               if b = [] then Inl (IndexOutOfRange, d1, c1)
               else Inr (QueueBuffers b (BufferData (b ! 0) buf d1),
                         c1\<lparr>queue := append_slice grow (queue c1) b\<rparr>)))"

lemma Play_fill_queue:
  "queue (snd (Play_fill rnd oor n buf c)) = queue c"
proof (induction rnd oor n buf c rule: Play_fill.induct)
  case (1 rnd oor n buf c)
  show ?case
  proof (cases "n < 2048")
    case True
    obtain f s' where fs: "oscillator c (captured c) = (f, s')"
      by (cases "oscillator c (captured c)")
    from True fs "1.IH" [OF True fs [symmetric] refl] show ?thesis
      by (subst Play_fill.simps) (simp add: Let_def)
  next
    case False
    then show ?thesis by (subst Play_fill.simps) simp
  qed
qed

lemma Play_body_len:
  assumes "Play_body grow rnd oor q (d, c) = Inr (d', c')"
  shows "0 < q \<and> len (queue c') = len (queue c) + nat q"
proof -
  obtain buf c1 where f: "Play_fill rnd oor 0 (replicate 2048 0) c = (buf, c1)"
    by (cases "Play_fill rnd oor 0 (replicate 2048 0) c")
  have q1: "queue c1 = queue c"
    using Play_fill_queue [of rnd oor 0 "replicate 2048 0" c] f by simp
  from assms f q1 show ?thesis
    by (auto simp: Play_body_def GenBuffers_def append_slice_def len_def
          split: if_splits)
qed

text \<open>The \<^verbatim>\<open>for len(c.queue) < QUEUE\<close> loop.\<close>

function Play_refill ::
  "(nat \<Rightarrow> nat \<Rightarrow> nat) \<Rightarrow> (real \<Rightarrow> real) \<Rightarrow> (real \<Rightarrow> 16 word) \<Rightarrow> int
   \<Rightarrow> Device \<times> 's Context \<Rightarrow> 's outcome" where
  "Play_refill grow rnd oor q (d, c) =
     (if len (queue c) < QUEUE then
        (case Play_body grow rnd oor q (d, c) of
           Inl e \<Rightarrow> Inl e
         | Inr dc' \<Rightarrow> Play_refill grow rnd oor q dc')
      else Inr (d, c))"
  by pat_completeness auto
termination
proof (relation "measure (\<lambda>(grow, rnd, oor, q, d, c). QUEUE - len (queue c))")
  show "wf (measure (\<lambda>(grow, rnd, oor, q, d, c). QUEUE - len (queue c)))"
    by simp
next
  fix grow :: "nat \<Rightarrow> nat \<Rightarrow> nat" and rnd :: "real \<Rightarrow> real" and oor :: "real \<Rightarrow> 16 word"
    and q :: int and d :: Device and c :: "'s Context" and dc' :: "Device \<times> 's Context"
  assume lt: "len (queue c) < QUEUE" and b: "Play_body grow rnd oor q (d, c) = Inr dc'"
  obtain d' c' where dc': "dc' = (d', c')" by (cases dc')
  from Play_body_len [OF b [unfolded dc']] lt
  show "((grow, rnd, oor, q, dc'), (grow, rnd, oor, q, d, c))
        \<in> measure (\<lambda>(grow, rnd, oor, q, d, c). QUEUE - len (queue c))"
    by (simp add: dc') linarith
qed

declare Play_refill.simps [simp del]

text \<open>
  The reclaim step of \<^verbatim>\<open>Play\<close>, for the count \<open>n\<close> the device answered: the slice
  expression, the assignment of \<^verbatim>\<open>nil\<close> to the queue and the two calls that give
  \<^verbatim>\<open>rm\<close> to the device.
\<close>

definition Play_reclaim :: "int \<Rightarrow> Device \<times> 's Context \<Rightarrow> 's outcome" where
  "Play_reclaim n dc =
     (case dc of (d, c) \<Rightarrow>
        if n > 0 then
          (case slice_to (queue c) n of
             Inl e \<Rightarrow> Inl (e, d, c)
           | Inr rm \<Rightarrow>
               Inr (DeleteBuffers (elems rm) (UnqueueBuffers (elems rm) d),
                    c\<lparr>queue := nil_slice\<rparr>))
        else Inr (d, c))"

text \<open>
  \<^verbatim>\<open>Play(q)\<close> when the device answers \<open>n\<close>. The line printed on standard output is
  left out.
\<close>

definition Play ::
  "(nat \<Rightarrow> nat \<Rightarrow> nat) \<Rightarrow> (real \<Rightarrow> real) \<Rightarrow> (real \<Rightarrow> 16 word) \<Rightarrow> int \<Rightarrow> int
   \<Rightarrow> Device \<times> 's Context \<Rightarrow> 's outcome" where
  "Play grow rnd oor q n dc =
     (case Play_reclaim n dc of
        Inl e \<Rightarrow> Inl e
      | Inr dc1 \<Rightarrow>
          (case Play_refill grow rnd oor q dc1 of
             Inl e \<Rightarrow> Inl e
           | Inr (d2, c2) \<Rightarrow> Inr (PlaySources d2, c2)))"

definition Close :: "Device \<times> 's Context \<Rightarrow> Device \<times> 's Context" where
  "Close dc = (case dc of (d, c) \<Rightarrow> (StopSources d, c))"

section \<open>Observations and concrete inputs\<close>

text \<open>
  What a call leaves behind, when it returns: the buffer names the context tracks and the
  buffers queued on the source.
\<close>

definition tracked :: "'s outcome \<Rightarrow> fault + Buffer list" where
  "tracked r = (case r of Inl e \<Rightarrow> Inl (fst e) | Inr (d, c) \<Rightarrow> Inr (elems (queue c)))"

definition device_queue :: "'s outcome \<Rightarrow> fault + Buffer list" where
  "device_queue r = (case r of Inl e \<Rightarrow> Inl (fst e) | Inr (d, c) \<Rightarrow> Inr (queued d))"

text \<open>
  Inputs for the closed theorems: a device with nothing generated or queued, a signal that
  is constantly 0.25, the conversion that keeps the low 16 bits of an integer out of range,
  and the growth of a backing array by doubling.
\<close>

definition idle_device :: Device where
  "idle_device =
     \<lparr>fresh = 1, allocated = {}, queued = [], bufdata = Map.empty, playing = False\<rparr>"

definition quarter :: "unit Oscillator" where
  "quarter s = (1 / 4, s)"

definition wrap16 :: "real \<Rightarrow> 16 word" where
  "wrap16 x = word_of_int (trunc x)"

definition double_cap :: "nat \<Rightarrow> nat \<Rightarrow> nat" where
  "double_cap old need = max need (2 * old)"

section \<open>Properties of the rounding\<close>

lemma rounding_exact: "rounding exact"
  by (simp add: rounding_def exact_def)

lemma rounding_nonneg: "rounding rnd \<Longrightarrow> 0 \<le> x \<Longrightarrow> 0 \<le> rnd x"
  unfolding rounding_def by metis

lemma rounding_le_one: "rounding rnd \<Longrightarrow> x \<le> 1 \<Longrightarrow> rnd x \<le> 1"
  unfolding rounding_def by metis

lemma rounding_mono: "rounding rnd \<Longrightarrow> x \<le> y \<Longrightarrow> rnd x \<le> rnd y"
  unfolding rounding_def by blast

section \<open>The envelope\<close>

lemma env_dt_nonneg: "rounding rnd \<Longrightarrow> 0 \<le> env_dt rnd"
  by (simp add: env_dt_def SampleRate_def rounding_nonneg)

lemma attackd_nonneg: "rounding rnd \<Longrightarrow> 0 \<le> attackd rnd"
  by (simp add: attackd_def rounding_nonneg env_dt_nonneg)

lemma dekeyd_nonneg: "rounding rnd \<Longrightarrow> 0 \<le> dekeyd rnd"
  by (simp add: dekeyd_def rounding_nonneg env_dt_nonneg)

lemma sustaind_nonneg: "rounding rnd \<Longrightarrow> 0 \<le> sustaind rnd"
  by (simp add: sustaind_def rounding_nonneg env_dt_nonneg)

lemma released_nonneg: "rounding rnd \<Longrightarrow> 0 \<le> released rnd"
  by (simp add: released_def rounding_nonneg env_dt_nonneg)

text \<open>One call keeps the gain between 0 and 1: every branch clamps on the side it moves to.\<close>

lemma Envelope_tick_bounds:
  assumes r: "rounding rnd" and lo: "0 \<le> gain e" and hi: "gain e \<le> 1"
  shows "0 \<le> gain (Envelope_tick rnd press e) \<and> gain (Envelope_tick rnd press e) \<le> 1"
proof -
  have up: "0 \<le> rnd (gain e + attackd rnd)"
    using r lo attackd_nonneg [OF r] by (simp add: rounding_nonneg)
  have down: "rnd (gain e - d) \<le> 1" if "0 \<le> d" for d
    using r hi that by (simp add: rounding_le_one)
  show ?thesis
    using up down [OF dekeyd_nonneg [OF r]] down [OF sustaind_nonneg [OF r]]
      down [OF released_nonneg [OF r]]
    by (simp add: Envelope_tick_def Let_def)
qed

lemma Envelope_run_bounds:
  "rounding rnd \<Longrightarrow> 0 \<le> gain e \<Longrightarrow> gain e \<le> 1 \<Longrightarrow>
   0 \<le> gain (Envelope_run rnd ps e) \<and> gain (Envelope_run rnd ps e) \<le> 1"
  by (induction ps arbitrary: e) (simp_all add: Envelope_tick_bounds)

text \<open>The gain is always a float32 value: rounding it again changes nothing.\<close>

lemma Envelope_tick_float:
  assumes r: "rounding rnd" and f: "rnd (gain e) = gain e"
  shows "rnd (gain (Envelope_tick rnd press e)) = gain (Envelope_tick rnd press e)"
  using r f unfolding rounding_def by (simp add: Envelope_tick_def Let_def)

lemma Envelope_run_float:
  "rounding rnd \<Longrightarrow> rnd (gain e) = gain e \<Longrightarrow>
   rnd (gain (Envelope_run rnd ps e)) = gain (Envelope_run rnd ps e)"
  by (induction ps arbitrary: e) (simp_all add: Envelope_tick_float)

lemma Envelope_tick_step:
  assumes r: "rounding rnd" and f: "rnd (gain e) = gain e"
    and lo: "0 \<le> gain e" and hi: "gain e \<le> 1"
  shows "(\<not> top' e \<longrightarrow> gain e \<le> gain (Envelope_tick rnd True e)) \<and>
         gain (Envelope_tick rnd False e) \<le> gain e \<and>
         0 \<le> gain (Envelope_tick rnd False e)"
proof -
  have up: "gain e \<le> rnd (gain e + attackd rnd)"
    using rounding_mono [OF r, of "gain e" "gain e + attackd rnd"] attackd_nonneg [OF r] f
    by simp
  have down: "rnd (gain e - released rnd) \<le> gain e"
    using rounding_mono [OF r, of "gain e - released rnd" "gain e"] released_nonneg [OF r] f
    by simp
  show ?thesis
    using up down lo hi by (simp add: Envelope_tick_def Let_def)
qed

text \<open>
  A call of the closure returns the gain times the sample of the wrapped signal and leaves
  the variables that \<open>Envelope_tick\<close> computes, whatever the wrapped signal does.
\<close>

lemma Envelope_call_vars:
  "fst (snd (Envelope_call rnd f press (e, s))) = Envelope_tick rnd press e \<and>
   fst (Envelope_call rnd f press (e, s)) =
     rnd (gain (Envelope_tick rnd press e) * fst (f s))"
  by (simp add: Envelope_call_def Let_def split: prod.splits)

text \<open>
  C4. Starting from the gain 0 that \<^verbatim>\<open>GenEnvelope\<close> sets, after the calls for any
  sequence of pressed and not pressed flags the gain is at least 0.0 and at most 1.0,
  under any rounding of the float32 operations.
\<close>

theorem Envelope_gain_in_unit_interval:
  assumes "rounding rnd"
  shows "0 \<le> gain (Envelope_run rnd ps GenEnvelope) \<and>
         gain (Envelope_run rnd ps GenEnvelope) \<le> 1"
  using assms by (simp add: Envelope_run_bounds GenEnvelope_def)

theorem Envelope_gain_in_unit_interval_witness:
  "rounding exact \<and>
   0 \<le> gain (Envelope_run exact [True, True, False] GenEnvelope) \<and>
   gain (Envelope_run exact [True, True, False] GenEnvelope) \<le> 1"
  using Envelope_gain_in_unit_interval [OF rounding_exact, of "[True, True, False]"]
    rounding_exact
  by simp

text \<open>
  C5, as stated, fails: a pressed note whose gain is below 1.0 can be past its peak. After
  102 pressed calls (without rounding error: 100 calls reach 1.0, the next sets
  \<^verbatim>\<open>top\<close>, the next decays) the gain is below 1.0, and one more pressed call lowers it.
\<close>

theorem Envelope_pressed_below_peak_counterexample:
  "gain (Envelope_run exact (replicate 102 True) GenEnvelope) < 1 \<and>
   gain (Envelope_tick exact True (Envelope_run exact (replicate 102 True) GenEnvelope))
     < gain (Envelope_run exact (replicate 102 True) GenEnvelope)"
  by (simp add: eval_nat_numeral GenEnvelope_def Envelope_tick_def exact_def attackd_def
        env_dt_def SampleRate_def Let_def dekeyd_def sustainlevel_def)

text \<open>
  C5, amended. In every state \<open>e\<close> the envelope reaches from its start: a call with the
  note pressed and \<^verbatim>\<open>top\<close> not yet set (the peak not yet reached) leaves the gain
  greater than or equal to the gain before; a call with the note not pressed leaves it
  less than or equal to the gain before, and at least 0.
\<close>

theorem Envelope_tick_monotone:
  assumes "rounding rnd" and "e = Envelope_run rnd ps GenEnvelope"
  shows "(\<not> top' e \<longrightarrow> gain e \<le> gain (Envelope_tick rnd True e)) \<and>
         gain (Envelope_tick rnd False e) \<le> gain e \<and>
         0 \<le> gain (Envelope_tick rnd False e)"
proof -
  have z: "rnd (gain GenEnvelope) = gain GenEnvelope"
    using assms(1) by (simp add: GenEnvelope_def rounding_def)
  have f: "rnd (gain e) = gain e"
    using Envelope_run_float [OF assms(1) z] assms(2) by simp
  have b: "0 \<le> gain e \<and> gain e \<le> 1"
    using Envelope_run_bounds [OF assms(1), of GenEnvelope ps] assms(2)
    by (simp add: GenEnvelope_def)
  show ?thesis
    using Envelope_tick_step [OF assms(1) f] b by blast
qed

theorem Envelope_tick_monotone_witness:
  "rounding exact \<and>
   \<not> top' (Envelope_run exact [True, True] GenEnvelope) \<and>
   gain (Envelope_run exact [True, True] GenEnvelope)
     \<le> gain (Envelope_tick exact True (Envelope_run exact [True, True] GenEnvelope)) \<and>
   gain (Envelope_tick exact False (Envelope_run exact [True, True] GenEnvelope))
     \<le> gain (Envelope_run exact [True, True] GenEnvelope) \<and>
   0 \<le> gain (Envelope_tick exact False (Envelope_run exact [True, True] GenEnvelope))"
proof -
  have nt: "\<not> top' (Envelope_run exact [True, True] GenEnvelope)"
    by (simp add: GenEnvelope_def Envelope_tick_def exact_def attackd_def env_dt_def
          SampleRate_def Let_def)
  show ?thesis
    using Envelope_tick_monotone [OF rounding_exact refl, of "[True, True]"] nt rounding_exact
    by blast
qed

section \<open>The oscillator\<close>

text \<open>A call assigns \<^verbatim>\<open>t\<close> only.\<close>

lemma Oscillator_call_frame:
  "snd (Oscillator_call rnd fsin v) = v\<lparr>o_t := o_t (snd (Oscillator_call rnd fsin v))\<rparr>"
  by (simp add: Oscillator_call_def Let_def)

text \<open>
  So after any number of calls the oscillator built for \<open>freq\<close> differs from the new
  one in its time only.
\<close>

lemma Oscillator_calls_frame:
  "\<exists>t'. calls (Oscillator_call rnd fsin) i ((GenOscillator rnd freq)\<lparr>o_t := t\<rparr>) =
          (GenOscillator rnd freq)\<lparr>o_t := t'\<rparr>"
proof (induction i arbitrary: t)
  case 0
  show ?case by auto
next
  case (Suc i)
  have "snd (Oscillator_call rnd fsin ((GenOscillator rnd freq)\<lparr>o_t := t\<rparr>)) =
        (GenOscillator rnd freq)\<lparr>o_t :=
           o_t (snd (Oscillator_call rnd fsin ((GenOscillator rnd freq)\<lparr>o_t := t\<rparr>)))\<rparr>"
    using Oscillator_call_frame [of rnd fsin "(GenOscillator rnd freq)\<lparr>o_t := t\<rparr>"] by simp
  with Suc.IH show ?case by simp metis
qed

text \<open>
  C6. For a frequency \<open>freq > 0\<close> and the oscillator built for it, at any internal time
  \<open>t\<close>: a call returns the sine of \<open>k * t\<close> with \<open>k = 2 * Pi * freq\<close>, then sets the time
  to \<open>t + dt\<close> with \<open>dt = 1 / SampleRate\<close>, less the period \<open>1 / freq\<close> once when
  \<open>t + dt\<close> exceeds the period, each operation rounded to float32. Without rounding error
  and with the real sine, the sample is \<open>sin (2 * pi * freq * t)\<close> and the new time is
  \<open>t + dt - 1 / freq\<close> or \<open>t + dt\<close>: one subtraction at most, not a remainder.
\<close>

theorem Oscillator_call_spec:
  assumes "0 < freq" and "v = (GenOscillator rnd freq)\<lparr>o_t := t\<rparr>"
    and "w = (GenOscillator exact freq)\<lparr>o_t := t\<rparr>"
  shows "Oscillator_call rnd fsin v =
           (fsin (rnd (rnd (2 * rnd pi * freq) * t)),
            v\<lparr>o_t := (if rnd (t + rnd (1 / SampleRate)) > rnd (1 / freq)
                      then rnd (rnd (t + rnd (1 / SampleRate)) - rnd (1 / freq))
                      else rnd (t + rnd (1 / SampleRate)))\<rparr>) \<and>
         Oscillator_call exact sin w =
           (sin (2 * pi * freq * t),
            w\<lparr>o_t := (if t + 1 / SampleRate > 1 / freq
                      then t + 1 / SampleRate - 1 / freq
                      else t + 1 / SampleRate)\<rparr>)"
  using assms by (simp add: Oscillator_call_def GenOscillator_def Let_def exact_def)

text \<open>
  At 30000 Hz the period is a third of \<open>dt\<close>: the first call returns \<open>sin 0\<close> and
  leaves the time at \<open>dt\<close> less one period, which is still two periods.
\<close>

theorem Oscillator_call_spec_witness:
  "(0::real) < 30000 \<and>
   Oscillator_call exact sin (GenOscillator exact 30000) =
     (0, (GenOscillator exact 30000)\<lparr>o_t := 1 / 15000\<rparr>)"
  using Oscillator_call_spec [where freq = 30000 and rnd = exact and t = 0 and fsin = sin
      and v = "GenOscillator exact 30000" and w = "GenOscillator exact 30000"]
  by (simp add: GenOscillator_def SampleRate_def exact_def)

section \<open>The piano\<close>

text \<open>
  C8. For a valid index, \<^verbatim>\<open>NoteOn\<close> returns the piano with the flag at that index true
  and \<^verbatim>\<open>NoteOff\<close> with that flag false, everything else as it was; for an index that
  is negative or not below the number of notes, both panic with an index out of range and
  return nothing.
\<close>

theorem NoteOn_NoteOff_index:
  "(if 0 \<le> i \<and> i < int (length (notes' p))
    then NoteOn p i = Inr (p\<lparr>notes' := (notes' p)[nat i := True]\<rparr>) \<and>
         (notes' p)[nat i := True] ! nat i = True \<and>
         NoteOff p i = Inr (p\<lparr>notes' := (notes' p)[nat i := False]\<rparr>) \<and>
         (notes' p)[nat i := False] ! nat i = False
    else NoteOn p i = Inl IndexOutOfRange \<and> NoteOff p i = Inl IndexOutOfRange)"
  by (auto simp: NoteOn_def NoteOff_def)

section \<open>Close\<close>

text \<open>
  C7. \<^verbatim>\<open>Close\<close> stops the source and changes nothing else: the context, with its
  queue, is the one it was given, and the device differs in the playing flag only. It has
  no fault to return, and a second call right after the first changes nothing.
\<close>

theorem Close_frame_idempotent:
  "snd (Close (d, c)) = c \<and>
   queue (snd (Close (d, c))) = queue c \<and>
   fst (Close (d, c)) = d\<lparr>playing := False\<rparr> \<and>
   Close (Close (d, c)) = Close (d, c)"
  by (simp add: Close_def StopSources_def)

section \<open>Play\<close>

lemma calls_add: "calls f (i + j) s = calls f j (calls f i s)"
  by (induction i arbitrary: s) simp_all

lemma length_PutUint16: "length (PutUint16 buf n v) = length buf"
  by (simp add: PutUint16_def)

lemma Play_fill_length:
  "length (fst (Play_fill rnd oor n buf c)) = length buf"
proof (induction rnd oor n buf c rule: Play_fill.induct)
  case (1 rnd oor n buf c)
  show ?case
  proof (cases "n < 2048")
    case True
    obtain f s' where fs: "oscillator c (captured c) = (f, s')"
      by (cases "oscillator c (captured c)")
    from True fs "1.IH" [OF True fs [symmetric] refl] show ?thesis
      by (subst Play_fill.simps) (simp add: Let_def PutUint16_def)
  next
    case False
    then show ?thesis by (subst Play_fill.simps) simp
  qed
qed

lemma Play_fill_step:
  "n < 2048 \<Longrightarrow>
   Play_fill rnd oor n buf c =
     Play_fill rnd oor (n + 2)
       (PutUint16 buf n (to_int16 oor (rnd (volume * fst (oscillator c (captured c))))))
       (c\<lparr>captured := snd (oscillator c (captured c))\<rparr>)"
  by (subst Play_fill.simps) (simp add: Let_def split: prod.splits)

lemma Play_fill_stop: "\<not> n < 2048 \<Longrightarrow> Play_fill rnd oor n buf c = (buf, c)"
  by (subst Play_fill.simps) simp

lemma Play_fill_kept:
  "j < n \<Longrightarrow> fst (Play_fill rnd oor n buf c) ! j = buf ! j"
proof (induction rnd oor n buf c rule: Play_fill.induct)
  case (1 rnd oor n buf c)
  show ?case
  proof (cases "n < 2048")
    case True
    obtain f s' where fs: "oscillator c (captured c) = (f, s')"
      by (cases "oscillator c (captured c)")
    have "fst (Play_fill rnd oor (n + 2) (PutUint16 buf n (to_int16 oor (rnd (volume * f))))
             (c\<lparr>captured := s'\<rparr>)) ! j = PutUint16 buf n (to_int16 oor (rnd (volume * f))) ! j"
      using "1.IH" [OF True fs [symmetric] refl] "1.prems" by simp
    with True fs "1.prems" show ?thesis
      by (simp add: Play_fill_step PutUint16_def)
  next
    case False
    then show ?thesis by (simp add: Play_fill_stop)
  qed
qed

lemma Play_fill_frame:
  "oscillator (snd (Play_fill rnd oor n buf c)) = oscillator c \<and>
   source (snd (Play_fill rnd oor n buf c)) = source c \<and>
   queue (snd (Play_fill rnd oor n buf c)) = queue c"
proof (induction rnd oor n buf c rule: Play_fill.induct)
  case (1 rnd oor n buf c)
  show ?case
  proof (cases "n < 2048")
    case True
    obtain f s' where fs: "oscillator c (captured c) = (f, s')"
      by (cases "oscillator c (captured c)")
    from True fs "1.IH" [OF True fs [symmetric] refl] show ?thesis
      by (simp add: Play_fill_step)
  next
    case False
    then show ?thesis by (simp add: Play_fill_stop)
  qed
qed

lemma Play_fill_captured:
  "captured (snd (Play_fill rnd oor n buf c)) =
     calls (oscillator c) ((2049 - n) div 2) (captured c)"
proof (induction rnd oor n buf c rule: Play_fill.induct)
  case (1 rnd oor n buf c)
  show ?case
  proof (cases "n < 2048")
    case True
    obtain f s' where fs: "oscillator c (captured c) = (f, s')"
      by (cases "oscillator c (captured c)")
    have k: "(2049 - n) div 2 = Suc ((2049 - (n + 2)) div 2)"
      using True by arith
    from True fs "1.IH" [OF True fs [symmetric] refl] show ?thesis
      by (simp add: Play_fill_step k)
  next
    case False
    then have "(2049 - n) div 2 = 0" by arith
    with False show ?thesis by (simp add: Play_fill_stop)
  qed
qed

lemma Play_fill_written:
  "n + 2 * i + 1 < 2048 \<Longrightarrow> length buf = 2048 \<Longrightarrow>
   fst (Play_fill rnd oor n buf c) ! (n + 2 * i) =
     ucast (to_int16 oor (rnd (volume *
        fst (oscillator c (calls (oscillator c) i (captured c)))))) \<and>
   fst (Play_fill rnd oor n buf c) ! (n + 2 * i + 1) =
     ucast (drop_bit 8 (to_int16 oor (rnd (volume *
        fst (oscillator c (calls (oscillator c) i (captured c)))))))"
proof (induction i arbitrary: n buf c)
  case 0
  then have n: "n < 2048" by simp
  show ?case
    using 0 by (simp add: Play_fill_step [OF n] Play_fill_kept PutUint16_def)
next
  case (Suc i)
  then have n: "n < 2048" by simp
  have "n + 2 + 2 * i + 1 < 2048" using Suc.prems by simp
  from Suc.IH [OF this, of "PutUint16 buf n (to_int16 oor (rnd (volume * fst (oscillator c (captured c)))))"
      "c\<lparr>captured := snd (oscillator c (captured c))\<rparr>"] Suc.prems
  show ?case
    by (simp add: Play_fill_step [OF n] length_PutUint16 add.commute add.left_commute)
qed


lemma upt_join: "[a ..< a + m] @ [a + m ..< a + m + k] = [a ..< a + m + (k::nat)]"
  using upt_add_eq_append [of a "a + m" k] by simp

lemma elems_append_slice: "elems (append_slice grow s xs) = elems s @ xs"
  by (simp add: append_slice_def)

lemma Play_body_result:
  assumes q: "0 < q"
  shows "\<exists>d' c'. Play_body grow rnd oor q (d, c) = Inr (d', c') \<and>
           queue c' = append_slice grow (queue c) [fresh d ..< fresh d + nat q] \<and>
           captured c' = calls (oscillator c) 1024 (captured c) \<and>
           oscillator c' = oscillator c \<and> source c' = source c \<and>
           fresh d' = fresh d + nat q \<and>
           queued d' = queued d @ [fresh d ..< fresh d + nat q] \<and>
           bufdata d' (fresh d) = Some (fst (Play_fill rnd oor 0 (replicate 2048 0) c))"
proof -
  obtain buf c1 where f: "Play_fill rnd oor 0 (replicate 2048 0) c = (buf, c1)"
    by (cases "Play_fill rnd oor 0 (replicate 2048 0) c")
  have fr: "oscillator c1 = oscillator c" "source c1 = source c" "queue c1 = queue c"
    using Play_fill_frame [of rnd oor 0 "replicate 2048 0" c] f by simp_all
  have ca: "captured c1 = calls (oscillator c) 1024 (captured c)"
    using Play_fill_captured [of rnd oor 0 "replicate 2048 0" c] f by simp
  have ne: "[fresh d ..< fresh d + nat q] \<noteq> []" and hd: "[fresh d ..< fresh d + nat q] ! 0 = fresh d"
    using q by simp_all
  show ?thesis
    using q f fr ca ne hd
    by (simp add: Play_body_def GenBuffers_def QueueBuffers_def BufferData_def)
qed

lemma Play_refill_stop:
  "\<not> len (queue c) < QUEUE \<Longrightarrow> Play_refill grow rnd oor q (d, c) = Inr (d, c)"
  by (subst Play_refill.simps) simp

lemma Play_refill_step:
  "len (queue c) < QUEUE \<Longrightarrow> Play_body grow rnd oor q (d, c) = Inr dc' \<Longrightarrow>
   Play_refill grow rnd oor q (d, c) = Play_refill grow rnd oor q dc'"
  by (subst Play_refill.simps) simp

lemma Play_refill_fault:
  "len (queue c) < QUEUE \<Longrightarrow> Play_body grow rnd oor q (d, c) = Inl e \<Longrightarrow>
   Play_refill grow rnd oor q (d, c) = Inl e"
  by (subst Play_refill.simps) simp

lemma Play_refill_result:
  assumes q: "0 < q"
  shows "\<exists>d' c' k. Play_refill grow rnd oor q (d, c) = Inr (d', c') \<and>
           elems (queue c') = elems (queue c) @ [fresh d ..< fresh d + k * nat q] \<and>
           queued d' = queued d @ [fresh d ..< fresh d + k * nat q] \<and>
           fresh d' = fresh d + k * nat q \<and>
           captured c' = calls (oscillator c) (1024 * k) (captured c) \<and>
           oscillator c' = oscillator c \<and> source c' = source c \<and>
           (if len (queue c) < QUEUE
            then QUEUE \<le> len (queue c') \<and> len (queue c') < QUEUE + nat q
            else k = 0 \<and> d' = d \<and> c' = c)"
  using q
proof (induction grow rnd oor q "(d, c)" arbitrary: d c rule: Play_refill.induct)
  case (1 grow rnd oor q d c)
  show ?case
  proof (cases "len (queue c) < QUEUE")
    case False
    then show ?thesis by (simp add: Play_refill_stop)
  next
    case True
    obtain d1 c1 where b: "Play_body grow rnd oor q (d, c) = Inr (d1, c1)"
      and q1: "queue c1 = append_slice grow (queue c) [fresh d ..< fresh d + nat q]"
      and ca1: "captured c1 = calls (oscillator c) 1024 (captured c)"
      and os1: "oscillator c1 = oscillator c" and so1: "source c1 = source c"
      and fr1: "fresh d1 = fresh d + nat q"
      and qd1: "queued d1 = queued d @ [fresh d ..< fresh d + nat q]"
      using Play_body_result [OF "1.prems", of grow rnd oor d c] by blast
    have e1: "elems (queue c1) = elems (queue c) @ [fresh d ..< fresh d + nat q]"
      by (simp add: q1 elems_append_slice)
    have l1: "len (queue c1) = len (queue c) + nat q"
      by (simp add: len_def e1)
    obtain d' c' k where r: "Play_refill grow rnd oor q (d1, c1) = Inr (d', c')"
      and e': "elems (queue c') = elems (queue c1) @ [fresh d1 ..< fresh d1 + k * nat q]"
      and qd': "queued d' = queued d1 @ [fresh d1 ..< fresh d1 + k * nat q]"
      and fr': "fresh d' = fresh d1 + k * nat q"
      and ca': "captured c' = calls (oscillator c1) (1024 * k) (captured c1)"
      and os': "oscillator c' = oscillator c1" and so': "source c' = source c1"
      and bd: "if len (queue c1) < QUEUE
               then QUEUE \<le> len (queue c') \<and> len (queue c') < QUEUE + nat q
               else k = 0 \<and> d' = d1 \<and> c' = c1"
      using "1.hyps" [OF True b "1.prems"] by blast
    have r0: "Play_refill grow rnd oor q (d, c) = Inr (d', c')"
      using Play_refill_step [OF True b] r by simp
    have "[fresh d ..< fresh d + nat q] @ [fresh d + nat q ..< fresh d + nat q + k * nat q]
          = [fresh d ..< fresh d + Suc k * nat q]"
      using upt_join [of "fresh d" "nat q" "k * nat q"] by (simp add: add.assoc)
    then have e0: "elems (queue c') = elems (queue c) @ [fresh d ..< fresh d + Suc k * nat q]"
      and qd0: "queued d' = queued d @ [fresh d ..< fresh d + Suc k * nat q]"
      using e' e1 fr1 qd' qd1 by simp_all
    have fr0: "fresh d' = fresh d + Suc k * nat q"
      using fr' fr1 by simp
    have ca0: "captured c' = calls (oscillator c) (1024 * Suc k) (captured c)"
      using ca' ca1 os1 calls_add [of "oscillator c" 1024 "1024 * k" "captured c"] by simp
    have bd0: "QUEUE \<le> len (queue c') \<and> len (queue c') < QUEUE + nat q"
    proof (cases "len (queue c1) < QUEUE")
      case True
      with bd show ?thesis by simp
    next
      case False
      with bd have "c' = c1" by simp
      with False l1 \<open>len (queue c) < QUEUE\<close> show ?thesis by simp
    qed
    show ?thesis
      using r0 e0 qd0 fr0 ca0 os' os1 so' so1 bd0 True
      by (intro exI [of _ d'] exI [of _ c'] exI [of _ "Suc k"]) simp
  qed
qed

lemma Play_reclaim_none: "\<not> 0 < n \<Longrightarrow> Play_reclaim n (d, c) = Inr (d, c)"
  by (simp add: Play_reclaim_def)

lemma Play_reclaim_some:
  "0 < n \<Longrightarrow> n \<le> int (cap (queue c)) \<Longrightarrow>
   Play_reclaim n (d, c) =
     Inr (DeleteBuffers (take (nat n) (elems (queue c) @ spare (queue c)))
            (UnqueueBuffers (take (nat n) (elems (queue c) @ spare (queue c))) d),
          c\<lparr>queue := nil_slice\<rparr>)"
  by (simp add: Play_reclaim_def slice_to_def)

lemma Play_reclaim_fault:
  "int (cap (queue c)) < n \<Longrightarrow> Play_reclaim n (d, c) = Inl (SliceBoundsOutOfRange, d, c)"
  by (simp add: Play_reclaim_def slice_to_def)

text \<open>The queue after the reclaim step, whenever that step does not panic.\<close>

lemma Play_reclaim_queue:
  assumes "n \<le> int (cap (queue c))"
  shows "\<exists>d1 c1. Play_reclaim n (d, c) = Inr (d1, c1) \<and>
           queue c1 = (if 0 < n then nil_slice else queue c) \<and>
           captured c1 = captured c \<and> oscillator c1 = oscillator c \<and> source c1 = source c \<and>
           fresh d1 = fresh d \<and>
           queued d1 =
             (if 0 < n
              then filter (\<lambda>b. b \<notin> set (take (nat n) (elems (queue c) @ spare (queue c))))
                     (queued d)
              else queued d)"
proof (cases "0 < n")
  case True
  then show ?thesis
    using assms by (simp add: Play_reclaim_some DeleteBuffers_def UnqueueBuffers_def)
next
  case False
  then show ?thesis by (simp add: Play_reclaim_none)
qed

lemma Play_result:
  assumes q: "0 < q" and n: "n \<le> int (cap (queue c))"
  shows "\<exists>d' c' k. Play grow rnd oor q n (d, c) = Inr (d', c') \<and>
           elems (queue c') =
             (if 0 < n then [] else elems (queue c)) @ [fresh d ..< fresh d + k * nat q] \<and>
           queued d' =
             (if 0 < n
              then filter (\<lambda>b. b \<notin> set (take (nat n) (elems (queue c) @ spare (queue c))))
                     (queued d)
              else queued d) @ [fresh d ..< fresh d + k * nat q] \<and>
           fresh d' = fresh d + k * nat q \<and>
           captured c' = calls (oscillator c) (1024 * k) (captured c) \<and>
           oscillator c' = oscillator c \<and> source c' = source c \<and>
           (if (if 0 < n then 0 else len (queue c)) < QUEUE
            then QUEUE \<le> len (queue c') \<and> len (queue c') < QUEUE + nat q
            else k = 0 \<and> queue c' = queue c)"
proof -
  obtain d1 c1 where r: "Play_reclaim n (d, c) = Inr (d1, c1)"
    and q1: "queue c1 = (if 0 < n then nil_slice else queue c)"
    and f1: "captured c1 = captured c" "oscillator c1 = oscillator c" "source c1 = source c"
      "fresh d1 = fresh d"
    and u1: "queued d1 =
             (if 0 < n
              then filter (\<lambda>b. b \<notin> set (take (nat n) (elems (queue c) @ spare (queue c))))
                     (queued d)
              else queued d)"
    using Play_reclaim_queue [OF n, of d] by blast
  obtain d2 c2 k where p: "Play_refill grow rnd oor q (d1, c1) = Inr (d2, c2)"
    and e2: "elems (queue c2) = elems (queue c1) @ [fresh d1 ..< fresh d1 + k * nat q]"
    and u2: "queued d2 = queued d1 @ [fresh d1 ..< fresh d1 + k * nat q]"
    and v2: "fresh d2 = fresh d1 + k * nat q"
    and ca2: "captured c2 = calls (oscillator c1) (1024 * k) (captured c1)"
    and f2: "oscillator c2 = oscillator c1" "source c2 = source c1"
    and bd: "if len (queue c1) < QUEUE
             then QUEUE \<le> len (queue c2) \<and> len (queue c2) < QUEUE + nat q
             else k = 0 \<and> d2 = d1 \<and> c2 = c1"
    using Play_refill_result [OF q, of grow rnd oor d1 c1] by blast
  have l1: "len (queue c1) = (if 0 < n then 0 else len (queue c))"
    by (simp add: q1 nil_slice_def len_def)
  have P: "Play grow rnd oor q n (d, c) = Inr (PlaySources d2, c2)"
    by (simp add: Play_def r p)
  have E: "elems (queue c2) =
      (if 0 < n then [] else elems (queue c)) @ [fresh d ..< fresh d + k * nat q]"
    using e2 q1 f1 by (simp add: nil_slice_def)
  have B: "if (if 0 < n then 0 else len (queue c)) < QUEUE
            then QUEUE \<le> len (queue c2) \<and> len (queue c2) < QUEUE + nat q
            else k = 0 \<and> queue c2 = queue c"
  proof (cases "len (queue c1) < QUEUE")
    case True
    with bd l1 show ?thesis by simp
  next
    case False
    with l1 have "\<not> 0 < n" by (auto simp: QUEUE_def split: if_splits)
    with False bd l1 q1 show ?thesis by simp
  qed
  have U: "queued (PlaySources d2) =
      (if 0 < n
       then filter (\<lambda>b. b \<notin> set (take (nat n) (elems (queue c) @ spare (queue c))))
              (queued d)
       else queued d) @ [fresh d ..< fresh d + k * nat q]"
    and V: "fresh (PlaySources d2) = fresh d + k * nat q"
    using u1 u2 v2 f1 by (simp_all add: PlaySources_def)
  show ?thesis
    using P E U V B ca2 f1 f2
    by (intro exI [of _ "PlaySources d2"] exI [of _ c2] exI [of _ k]) simp
qed


lemma NewContext_fields:
  "queue (NewContext src osc st) = \<lparr>elems = [], spare = []\<rparr>"
  "oscillator (NewContext src osc st) = osc"
  "captured (NewContext src osc st) = st"
  "source (NewContext src osc st) = src"
  by (simp_all add: NewContext_def)

subsection \<open>The cap of the queue\<close>

text \<open>
  C1, as stated, fails: the loop tests the length before a pass and a pass appends \<open>q\<close>
  names at once. \<^verbatim>\<open>Play(70)\<close> on the empty queue of a new context, with no buffer
  processed, passes the lengths 0, 70, ..., 490 and returns with 560 names tracked.
\<close>

theorem Play_queue_exceeds_QUEUE_counterexample:
  "tracked (Play double_cap exact wrap16 70 0 (idle_device, NewContext 1 quarter ()))
     = Inr [1 ..< 561] \<and>
   QUEUE < length [1 ..< 561]"
proof -
  have n: "(0::int) \<le> int (cap (queue (NewContext 1 quarter ())))" by simp
  obtain d' c' k where P: "Play double_cap exact wrap16 70 0 (idle_device, NewContext 1 quarter ()) = Inr (d', c')"
    and E: "elems (queue c') = [1 ..< 1 + k * 70]"
    and B: "QUEUE \<le> len (queue c') \<and> len (queue c') < QUEUE + 70"
    using Play_result [of 70 0 "NewContext 1 quarter ()" double_cap exact wrap16 idle_device, OF _ n]
    by (auto simp: NewContext_fields idle_device_def len_def QUEUE_def)
  have "len (queue c') = k * 70" unfolding len_def E length_upt by simp
  with B have "500 \<le> k * 70 \<and> k * 70 < 570" by (simp add: QUEUE_def)
  then have "k = 8" by arith
  with P E show ?thesis by (simp add: tracked_def QUEUE_def)
qed

text \<open>
  C1, amended. For \<open>q \<ge> 1\<close> and any count \<open>n\<close> of processed buffers that the reclaim
  step accepts (at most the capacity of the queue), \<^verbatim>\<open>Play\<close> returns, and the length of
  the queue is then at most the greater of the length after the reclaim step and
  \<open>QUEUE + q - 1\<close>: when the length after the reclaim step is below \<open>QUEUE\<close> the final
  length is below \<open>QUEUE + q\<close>, and otherwise no buffer is produced and the queue is the one
  the call was given.
\<close>

theorem Play_queue_bound:
  assumes "0 < q" and "n \<le> int (cap (queue c))"
  shows "\<exists>d' c'. Play grow rnd oor q n (d, c) = Inr (d', c') \<and>
           len (queue c') \<le> max (if 0 < n then 0 else len (queue c)) (QUEUE + nat q - 1) \<and>
           (if (if 0 < n then 0 else len (queue c)) < QUEUE
            then len (queue c') < QUEUE + nat q
            else queue c' = queue c)"
proof -
  obtain d' c' and k :: nat where P: "Play grow rnd oor q n (d, c) = Inr (d', c')"
    and B: "if (if 0 < n then 0 else len (queue c)) < QUEUE
            then QUEUE \<le> len (queue c') \<and> len (queue c') < QUEUE + nat q
            else k = 0 \<and> queue c' = queue c"
    using Play_result [OF assms, of grow rnd oor d] by blast
  have "len (queue c') \<le> max (if 0 < n then 0 else len (queue c)) (QUEUE + nat q - 1)"
    using B by (auto simp: QUEUE_def split: if_splits)
  moreover have "if (if 0 < n then 0 else len (queue c)) < QUEUE
            then len (queue c') < QUEUE + nat q
            else queue c' = queue c"
    using B by (auto split: if_splits)
  ultimately show ?thesis using P by blast
qed

theorem Play_queue_bound_witness:
  "(0::int) < 70 \<and> (0::int) \<le> int (cap (queue (NewContext 1 quarter ()))) \<and>
   (\<exists>d' c'. Play double_cap exact wrap16 70 0 (idle_device, NewContext 1 quarter ()) = Inr (d', c') \<and>
      len (queue c') \<le> QUEUE + 69 \<and> len (queue c') < QUEUE + 70)"
  using Play_queue_bound [of 70 0 "NewContext 1 quarter ()" double_cap exact wrap16 idle_device]
  by (simp add: NewContext_fields len_def QUEUE_def)

text \<open>
  C10. For \<open>q \<ge> 1\<close>, a pass of the loop returns with exactly \<open>q\<close> new names appended
  to the queue, the signal called exactly 1024 times and a buffer of 2048 bytes submitted.
  When the length \<open>L\<close> after the reclaim step is below \<open>QUEUE\<close>, \<^verbatim>\<open>Play\<close> returns after
  some number \<open>k\<close> of passes, hence \<open>1024 * k\<close> calls of the signal, with the length
  \<open>L + k * q\<close>, which is at least \<open>QUEUE\<close> and less than \<open>QUEUE + q\<close>.
\<close>

theorem Play_refill_least_multiple:
  assumes "0 < q" and "n \<le> int (cap (queue c))"
    and "L = (if 0 < n then 0 else len (queue c))" and "L < QUEUE"
  shows "\<exists>d' c' k. Play grow rnd oor q n (d, c) = Inr (d', c') \<and>
           len (queue c') = L + k * nat q \<and>
           QUEUE \<le> len (queue c') \<and> len (queue c') < QUEUE + nat q \<and>
           captured c' = calls (oscillator c) (1024 * k) (captured c) \<and>
           (\<exists>d1 c1 buf. Play_body grow rnd oor q (d, c) = Inr (d1, c1) \<and>
              elems (queue c1) = elems (queue c) @ [fresh d ..< fresh d + nat q] \<and>
              len (queue c1) = len (queue c) + nat q \<and>
              captured c1 = calls (oscillator c) 1024 (captured c) \<and>
              bufdata d1 (fresh d) = Some buf \<and> length buf = 2048)"
proof -
  obtain d' c' and k :: nat where P: "Play grow rnd oor q n (d, c) = Inr (d', c')"
    and E: "elems (queue c') =
             (if 0 < n then [] else elems (queue c)) @ [fresh d ..< fresh d + k * nat q]"
    and C: "captured c' = calls (oscillator c) (1024 * k) (captured c)"
    and B: "if (if 0 < n then 0 else len (queue c)) < QUEUE
            then QUEUE \<le> len (queue c') \<and> len (queue c') < QUEUE + nat q
            else k = 0 \<and> queue c' = queue c"
    using Play_result [OF assms(1,2), of grow rnd oor d] by blast
  have L: "len (queue c') = L + k * nat q"
    unfolding len_def E assms(3) by (simp add: len_def)
  have B': "QUEUE \<le> len (queue c') \<and> len (queue c') < QUEUE + nat q"
    using B assms(3,4) by simp
  obtain d1 c1 where b: "Play_body grow rnd oor q (d, c) = Inr (d1, c1)"
    and q1: "queue c1 = append_slice grow (queue c) [fresh d ..< fresh d + nat q]"
    and ca1: "captured c1 = calls (oscillator c) 1024 (captured c)"
    and bd: "bufdata d1 (fresh d) = Some (fst (Play_fill rnd oor 0 (replicate 2048 0) c))"
    using Play_body_result [OF assms(1), of grow rnd oor d c] by blast
  have e1: "elems (queue c1) = elems (queue c) @ [fresh d ..< fresh d + nat q]"
    by (simp add: q1 elems_append_slice)
  have l1: "len (queue c1) = len (queue c) + nat q"
    unfolding len_def e1 by simp
  have body: "\<exists>d1 c1 buf. Play_body grow rnd oor q (d, c) = Inr (d1, c1) \<and>
              elems (queue c1) = elems (queue c) @ [fresh d ..< fresh d + nat q] \<and>
              len (queue c1) = len (queue c) + nat q \<and>
              captured c1 = calls (oscillator c) 1024 (captured c) \<and>
              bufdata d1 (fresh d) = Some buf \<and> length buf = 2048"
    using b e1 l1 ca1 bd Play_fill_length [of rnd oor 0 "replicate 2048 0" c]
    by (intro exI [of _ d1] exI [of _ c1]
          exI [of _ "fst (Play_fill rnd oor 0 (replicate 2048 0) c)"]) simp
  show ?thesis
    using P L B' C body
    by (intro exI [of _ d'] exI [of _ c'] exI [of _ k]) simp
qed

theorem Play_refill_least_multiple_witness:
  "(0::int) < 70 \<and> (0::int) \<le> int (cap (queue (NewContext 1 quarter ()))) \<and>
   (0::nat) < QUEUE \<and>
   (\<exists>d' c' k. Play double_cap exact wrap16 70 0 (idle_device, NewContext 1 quarter ())
        = Inr (d', c') \<and>
      len (queue c') = k * 70 \<and> QUEUE \<le> len (queue c') \<and> len (queue c') < QUEUE + 70)"
  using Play_refill_least_multiple [of 70 0 "NewContext 1 quarter ()" 0 double_cap exact wrap16
      idle_device]
  by (simp add: NewContext_fields len_def QUEUE_def) blast

subsection \<open>The reclaim step\<close>

text \<open>
  \<^verbatim>\<open>Play(200)\<close> on a queue without capacity, when the backing array grows by doubling:
  three passes, the third into an array of 800 cells of which 200 stay spare.
\<close>

lemma Play_refill_200:
  assumes e: "queue c = \<lparr>elems = [], spare = []\<rparr>"
  shows "\<exists>d' c'. Play_refill double_cap rnd oor 200 (d, c) = Inr (d', c') \<and>
           queue c' = \<lparr>elems = [fresh d ..< fresh d + 600], spare = replicate 200 0\<rparr> \<and>
           fresh d' = fresh d + 600 \<and>
           queued d' = queued d @ [fresh d ..< fresh d + 600]"
proof -
  have q: "(0::int) < 200" by simp
  obtain d1 c1 where b1: "Play_body double_cap rnd oor 200 (d, c) = Inr (d1, c1)"
    and q1: "queue c1 = append_slice double_cap (queue c) [fresh d ..< fresh d + nat 200]"
    and w1: "fresh d1 = fresh d + nat 200"
      "queued d1 = queued d @ [fresh d ..< fresh d + nat 200]"
    using Play_body_result [OF q, of double_cap rnd oor d c] by blast
  have v1: "fresh d1 = fresh d + 200" "queued d1 = queued d @ [fresh d ..< fresh d + 200]"
    using w1 by simp_all
  have s1: "queue c1 = \<lparr>elems = [fresh d ..< fresh d + 200], spare = []\<rparr>"
    by (simp add: q1 e append_slice_def double_cap_def len_def cap_def)
  obtain d2 c2 where b2: "Play_body double_cap rnd oor 200 (d1, c1) = Inr (d2, c2)"
    and q2: "queue c2 = append_slice double_cap (queue c1) [fresh d1 ..< fresh d1 + nat 200]"
    and w2: "fresh d2 = fresh d1 + nat 200"
      "queued d2 = queued d1 @ [fresh d1 ..< fresh d1 + nat 200]"
    using Play_body_result [OF q, of double_cap rnd oor d1 c1] by blast
  have v2: "fresh d2 = fresh d + 400" "queued d2 = queued d @ [fresh d ..< fresh d + 400]"
    using w2 v1 upt_join [of "fresh d" 200 200]
    by (simp_all add: add.commute)
  have s2: "queue c2 = \<lparr>elems = [fresh d ..< fresh d + 400], spare = []\<rparr>"
    using upt_join [of "fresh d" 200 200]
    by (simp add: q2 s1 v1 append_slice_def double_cap_def len_def cap_def add.commute)
  obtain d3 c3 where b3: "Play_body double_cap rnd oor 200 (d2, c2) = Inr (d3, c3)"
    and q3: "queue c3 = append_slice double_cap (queue c2) [fresh d2 ..< fresh d2 + nat 200]"
    and w3: "fresh d3 = fresh d2 + nat 200"
      "queued d3 = queued d2 @ [fresh d2 ..< fresh d2 + nat 200]"
    using Play_body_result [OF q, of double_cap rnd oor d2 c2] by blast
  have v3: "fresh d3 = fresh d + 600" "queued d3 = queued d @ [fresh d ..< fresh d + 600]"
    using w3 v2 upt_join [of "fresh d" 400 200]
    by (simp_all add: add.commute)
  have s3: "queue c3 = \<lparr>elems = [fresh d ..< fresh d + 600], spare = replicate 200 0\<rparr>"
    using upt_join [of "fresh d" 400 200]
    by (simp add: q3 s2 v2 append_slice_def double_cap_def len_def cap_def add.commute)
  have l0: "len (queue c) < QUEUE" by (simp add: e len_def QUEUE_def)
  have l1: "len (queue c1) < QUEUE" by (simp add: s1 len_def QUEUE_def)
  have l2: "len (queue c2) < QUEUE" by (simp add: s2 len_def QUEUE_def)
  have l3: "\<not> len (queue c3) < QUEUE" by (simp add: s3 len_def QUEUE_def)
  have "Play_refill double_cap rnd oor 200 (d, c) = Inr (d3, c3)"
    using Play_refill_step [OF l0 b1] Play_refill_step [OF l1 b2] Play_refill_step [OF l2 b3]
      Play_refill_stop [OF l3, of double_cap rnd oor 200 d3]
    by simp
  with s3 v3 show ?thesis by blast
qed

lemma Play_200:
  assumes n: "n \<le> int (cap (queue c))"
    and e: "0 < n \<or> queue c = \<lparr>elems = [], spare = []\<rparr>"
  shows "\<exists>d' c'. Play double_cap rnd oor 200 n (d, c) = Inr (d', c') \<and>
           queue c' = \<lparr>elems = [fresh d ..< fresh d + 600], spare = replicate 200 0\<rparr> \<and>
           fresh d' = fresh d + 600 \<and>
           queued d' =
             (if 0 < n
              then filter (\<lambda>b. b \<notin> set (take (nat n) (elems (queue c) @ spare (queue c))))
                     (queued d)
              else queued d) @ [fresh d ..< fresh d + 600]"
proof -
  define d1 where "d1 = (if 0 < n
      then DeleteBuffers (take (nat n) (elems (queue c) @ spare (queue c)))
             (UnqueueBuffers (take (nat n) (elems (queue c) @ spare (queue c))) d)
      else d)"
  define c1 where "c1 = (if 0 < n then c\<lparr>queue := nil_slice\<rparr> else c)"
  have r: "Play_reclaim n (d, c) = Inr (d1, c1)"
    using n by (simp add: d1_def c1_def Play_reclaim_some Play_reclaim_none)
  have e1: "queue c1 = \<lparr>elems = [], spare = []\<rparr>"
    using e by (auto simp: c1_def nil_slice_def)
  have f1: "fresh d1 = fresh d"
    by (simp add: d1_def DeleteBuffers_def UnqueueBuffers_def)
  have u1: "queued d1 = (if 0 < n
              then filter (\<lambda>b. b \<notin> set (take (nat n) (elems (queue c) @ spare (queue c))))
                     (queued d)
              else queued d)"
    by (simp add: d1_def DeleteBuffers_def UnqueueBuffers_def)
  obtain d' c' where p: "Play_refill double_cap rnd oor 200 (d1, c1) = Inr (d', c')"
    and s: "queue c' = \<lparr>elems = [fresh d1 ..< fresh d1 + 600], spare = replicate 200 0\<rparr>"
    and v: "fresh d' = fresh d1 + 600" "queued d' = queued d1 @ [fresh d1 ..< fresh d1 + 600]"
    using Play_refill_200 [OF e1, of rnd oor d1] by blast
  have "Play double_cap rnd oor 200 n (d, c) = Inr (PlaySources d', c')"
    by (simp add: Play_def r p)
  with s v f1 u1 show ?thesis
    by (intro exI [of _ "PlaySources d'"] exI [of _ c']) (simp add: PlaySources_def)
qed

lemma filter_first_upt:
  "a < n \<Longrightarrow> filter (\<lambda>b. b \<notin> set [a]) [a ..< n] = [a + 1 ..< n]"
proof -
  assume "a < n"
  then have "[a ..< n] = a # [a + 1 ..< n]"
    by (simp add: upt_conv_Cons)
  moreover have "filter (\<lambda>b. b \<noteq> a) [a + 1 ..< n] = [a + 1 ..< n]"
    by (rule filter_True) auto
  ultimately show ?thesis by simp
qed

text \<open>
  C2 says that the reclaim step, for a count \<open>n > 0\<close> within the length of the queue,
  removes exactly the first \<open>n\<close> entries, hands them back to the device and keeps
  every later entry tracked. The code does not keep them. \<^verbatim>\<open>Play(500)\<close> on a new
  context leaves the names 1 to 500 tracked and queued. When the device then reports one
  buffer processed, the reclaim step hands name 1 back to the device and assigns
  \<^verbatim>\<open>nil\<close> to the queue: nothing is tracked any more, while 2 to 500 are still queued
  on the source; and when that second \<^verbatim>\<open>Play(500)\<close> returns, the queue holds the 500
  new names only.
\<close>

theorem Play_reclaim_drops_queue:
  "tracked (Play double_cap exact wrap16 500 0 (idle_device, NewContext 1 quarter ()))
     = Inr [1 ..< 501] \<and>
   device_queue (Play double_cap exact wrap16 500 0 (idle_device, NewContext 1 quarter ()))
     = Inr [1 ..< 501] \<and>
   tracked (Play_reclaim 1
      (projr (Play double_cap exact wrap16 500 0 (idle_device, NewContext 1 quarter ()))))
     = Inr [] \<and>
   device_queue (Play_reclaim 1
      (projr (Play double_cap exact wrap16 500 0 (idle_device, NewContext 1 quarter ()))))
     = Inr [2 ..< 501] \<and>
   tracked (Play double_cap exact wrap16 500 1
      (projr (Play double_cap exact wrap16 500 0 (idle_device, NewContext 1 quarter ()))))
     = Inr [501 ..< 1001]"
proof -
  let ?P = "Play double_cap exact wrap16 500"
  have n0: "(0::int) \<le> int (cap (queue (NewContext 1 quarter ())))" by simp
  obtain d1 c1 and k :: nat where p1: "?P 0 (idle_device, NewContext 1 quarter ()) = Inr (d1, c1)"
    and e1: "elems (queue c1) = [1 ..< 1 + k * 500]"
    and u1: "queued d1 = [1 ..< 1 + k * 500]"
    and f1: "fresh d1 = 1 + k * 500"
    and b1: "QUEUE \<le> len (queue c1) \<and> len (queue c1) < QUEUE + 500"
    using Play_result [of 500 0 "NewContext 1 quarter ()" double_cap exact wrap16 idle_device,
        OF _ n0]
    by (auto simp: NewContext_fields idle_device_def len_def QUEUE_def)
  have "len (queue c1) = k * 500" unfolding len_def e1 length_upt by simp
  with b1 have "500 \<le> k * 500 \<and> k * 500 < 1000" by (simp add: QUEUE_def)
  then have k1: "k = 1" by arith
  have E1: "elems (queue c1) = [1 ..< 501]" and U1: "queued d1 = [1 ..< 501]"
    and F1: "fresh d1 = 501"
    using e1 u1 f1 k1 by (simp_all del: upt_rec_numeral)
  have hd1: "elems (queue c1) = 1 # [2 ..< 501]"
    unfolding E1 using upt_conv_Cons [of 1 501]
    by (simp add: numeral_2_eq_2 del: upt_rec_numeral)
  have n1: "(1::int) \<le> int (cap (queue c1))"
    by (simp add: cap_def hd1)
  have rm: "take (nat 1) (elems (queue c1) @ spare (queue c1)) = [1]"
    by (simp add: hd1)
  have fl: "filter (\<lambda>b. b \<notin> set [1]) (queued d1) = [2 ..< 501]"
    unfolding U1 using filter_first_upt [of 1 501]
    by (simp add: numeral_2_eq_2 del: upt_rec_numeral)
  have r: "Play_reclaim 1 (d1, c1) =
      Inr (DeleteBuffers [1] (UnqueueBuffers [1] d1), c1\<lparr>queue := nil_slice\<rparr>)"
    using Play_reclaim_some [of 1 c1 d1, OF _ n1] rm by simp
  obtain d2 c2 and j :: nat where p2: "?P 1 (d1, c1) = Inr (d2, c2)"
    and e2: "elems (queue c2) = [501 ..< 501 + j * 500]"
    and b2: "QUEUE \<le> len (queue c2) \<and> len (queue c2) < QUEUE + 500"
    using Play_result [of 500 1 c1 double_cap exact wrap16 d1, OF _ n1] F1
    by (auto simp: QUEUE_def)
  have "len (queue c2) = j * 500" unfolding len_def e2 length_upt by simp
  with b2 have "500 \<le> j * 500 \<and> j * 500 < 1000" by (simp add: QUEUE_def)
  then have j1: "j = 1" by arith
  have E2: "elems (queue c2) = [501 ..< 1001]"
    using e2 j1 by (simp del: upt_rec_numeral)
  show ?thesis
    unfolding p1 sum.sel p2 r tracked_def device_queue_def
    using fl
    by (simp add: E1 U1 E2 nil_slice_def DeleteBuffers_def UnqueueBuffers_def
          del: upt_rec_numeral)
qed

text \<open>
  C9, as stated, fails: the bound of the slice expression \<^verbatim>\<open>c.queue[:n]\<close> is the
  capacity of the slice, not its length, and \<^verbatim>\<open>append\<close> leaves capacity to spare.
  With a backing array that grows by doubling: \<^verbatim>\<open>Play(200)\<close> on a new context, then
  \<^verbatim>\<open>Play(200)\<close> with one buffer processed, leaves 600 names tracked in an array of 800
  cells (and 1199 buffers queued on the source). A count of 601 then exceeds the length
  of the queue, and \<^verbatim>\<open>Play(200)\<close> does not panic: it returns with 600 new names tracked.
\<close>

theorem Play_count_within_capacity_counterexample:
  "tracked (Play double_cap exact wrap16 200 1
      (projr (Play double_cap exact wrap16 200 0 (idle_device, NewContext 1 quarter ()))))
     = Inr [601 ..< 1201] \<and>
   device_queue (Play double_cap exact wrap16 200 1
      (projr (Play double_cap exact wrap16 200 0 (idle_device, NewContext 1 quarter ()))))
     = Inr ([2 ..< 601] @ [601 ..< 1201]) \<and>
   length [601 ..< 1201 :: nat] < 601 \<and>
   tracked (Play double_cap exact wrap16 200 601
      (projr (Play double_cap exact wrap16 200 1
         (projr (Play double_cap exact wrap16 200 0 (idle_device, NewContext 1 quarter ()))))))
     = Inr [1201 ..< 1801]"
proof -
  let ?P = "Play double_cap exact wrap16 200"
  obtain d1 c1 where p1: "?P 0 (idle_device, NewContext 1 quarter ()) = Inr (d1, c1)"
    and s1: "queue c1 = \<lparr>elems = [1 ..< 601], spare = replicate 200 0\<rparr>"
    and f1: "fresh d1 = 601"
    and u1: "queued d1 = [1 ..< 601]"
    using Play_200 [of 0 "NewContext 1 quarter ()" exact wrap16 idle_device]
    by (auto simp: NewContext_fields idle_device_def simp del: upt_rec_numeral)
  have n1: "(1::int) \<le> int (cap (queue c1))"
    by (simp add: s1 cap_def del: upt_rec_numeral)
  have hd1: "[1 ..< 601] = 1 # [2 ..< (601::nat)]"
    using upt_conv_Cons [of 1 601] by (simp add: numeral_2_eq_2 del: upt_rec_numeral)
  have rm: "take (nat 1) (elems (queue c1) @ spare (queue c1)) = [1]"
    by (simp add: s1 hd1 del: upt_rec_numeral)
  have fl: "filter (\<lambda>b. b \<notin> set [1]) (queued d1) = [2 ..< 601]"
    unfolding u1 using filter_first_upt [of 1 601]
    by (simp add: numeral_2_eq_2 del: upt_rec_numeral)
  obtain d2 c2 where p2: "?P 1 (d1, c1) = Inr (d2, c2)"
    and s2: "queue c2 = \<lparr>elems = [601 ..< 1201], spare = replicate 200 0\<rparr>"
    and f2: "fresh d2 = 1201"
    and u2: "queued d2 = [2 ..< 601] @ [601 ..< 1201]"
    using Play_200 [OF n1, of exact wrap16 d1, unfolded rm fl f1]
    by (auto simp del: upt_rec_numeral)
  have n2: "(601::int) \<le> int (cap (queue c2))"
    by (simp add: s2 cap_def del: upt_rec_numeral)
  obtain d3 c3 where p3: "?P 601 (d2, c2) = Inr (d3, c3)"
    and s3: "queue c3 = \<lparr>elems = [1201 ..< 1801], spare = replicate 200 0\<rparr>"
    using Play_200 [OF n2, of exact wrap16 d2] f2 by (auto simp del: upt_rec_numeral)
  show ?thesis
    unfolding p1 sum.sel p2 p3 tracked_def device_queue_def
    by (simp add: s2 s3 u2 del: upt_rec_numeral)
qed

text \<open>
  C9, amended. If the count \<open>n\<close> exceeds the capacity of the queue, which is never less
  than its length, \<^verbatim>\<open>Play\<close> panics at the slice expression with the device and the
  context as they were: nothing is reclaimed. For every other \<open>n\<close> the reclaim step is
  defined: for \<open>n > 0\<close> it hands the first \<open>n\<close> cells of the backing array to the device
  and empties the queue, for \<open>n \<le> 0\<close> it does nothing.
\<close>

theorem Play_reclaim_bounds:
  "(if int (cap (queue c)) < n
    then Play grow rnd oor q n (d, c) = Inl (SliceBoundsOutOfRange, d, c)
    else Play_reclaim n (d, c) =
           Inr (if 0 < n
                then (DeleteBuffers (take (nat n) (elems (queue c) @ spare (queue c)))
                        (UnqueueBuffers (take (nat n) (elems (queue c) @ spare (queue c))) d),
                      c\<lparr>queue := nil_slice\<rparr>)
                else (d, c))) \<and>
   len (queue c) \<le> cap (queue c)"
  by (simp add: Play_def Play_reclaim_fault Play_reclaim_some Play_reclaim_none len_def cap_def)

text \<open>
  On the empty queue of a new context, whose capacity is 0, a count of 1 is out of range.
\<close>

theorem Play_reclaim_bounds_witness:
  "tracked (Play double_cap exact wrap16 70 1 (idle_device, NewContext 1 quarter ()))
     = Inl SliceBoundsOutOfRange"
  using Play_reclaim_bounds [of "NewContext 1 quarter ()" 1 double_cap exact wrap16 70
      idle_device]
  by (simp add: NewContext_fields cap_def tracked_def)

subsection \<open>The samples\<close>

text \<open>
  C3, as stated, fails. For a signal that is constantly 0.25 the product with the volume
  is 23191.75, which float32 holds exactly, and the conversion discards the fraction: the
  first sample written is 23191, the bytes 97 5A. The spec's formula gives
  \<open>round (32767 * 0.25) = 8192\<close>, the bytes 00 20.
\<close>

theorem Play_sample_counterexample:
  "take 2 (fst (Play_fill exact wrap16 0 (replicate 2048 0) (NewContext 1 quarter ())))
     = [0x97, 0x5A] \<and>
   [ucast (spec_sample16 (1 / 4)), ucast (drop_bit 8 (spec_sample16 (1 / 4)))]
     = [0x00, 0x20 :: 8 word]"
proof -
  have v: "to_int16 wrap16 (exact (volume / 4)) = 23191"
    by (simp add: to_int16_def trunc_def exact_def volume_def)
  have w: "fst (Play_fill exact wrap16 0 (replicate 2048 0) (NewContext 1 quarter ())) ! 0 = 0x97 \<and>
    fst (Play_fill exact wrap16 0 (replicate 2048 0) (NewContext 1 quarter ())) ! 1 = 0x5A"
    using Play_fill_written [of 0 0 "replicate 2048 0" exact wrap16 "NewContext 1 quarter ()"]
    by (simp add: NewContext_fields quarter_def v)
  have l: "length (fst (Play_fill exact wrap16 0 (replicate 2048 0) (NewContext 1 quarter ()))) = 2048"
    by (simp add: Play_fill_length)
  have t: "take 2 xs = [xs ! 0, xs ! 1]" if "length xs = 2048" for xs :: "8 word list"
    using that by (cases xs; cases "tl xs") auto
  have s: "spec_sample16 (1 / 4) = 8192"
    by (simp add: spec_sample16_def round_def)
  show ?thesis
    unfolding t [OF l] using w by (simp add: s)
qed

text \<open>
  C3, amended. In every pass of the loop of \<^verbatim>\<open>Play\<close>, for every \<open>i < 1024\<close>, the bytes
  \<open>2 * i\<close> and \<open>2 * i + 1\<close> of the buffer submitted to the device are the low and the
  high byte of the 16-bit integer that the conversion \<^verbatim>\<open>int16\<close> gives for the float32
  product of the volume constant and \<open>s\<close>, where \<open>s\<close> is the value of call number \<open>i\<close>
  of the signal in this pass; the pass calls the signal 1024 times. The conversion
  discards the fraction and nothing clamps \<open>s\<close>.
\<close>

theorem Play_body_samples:
  assumes "0 < q" and "i < 1024"
  shows "\<exists>d' c' buf. Play_body grow rnd oor q (d, c) = Inr (d', c') \<and>
           bufdata d' (fresh d) = Some buf \<and> length buf = 2048 \<and>
           buf ! (2 * i) =
             ucast (to_int16 oor (rnd (volume *
                fst (oscillator c (calls (oscillator c) i (captured c)))))) \<and>
           buf ! (2 * i + 1) =
             ucast (drop_bit 8 (to_int16 oor (rnd (volume *
                fst (oscillator c (calls (oscillator c) i (captured c))))))) \<and>
           captured c' = calls (oscillator c) 1024 (captured c)"
proof -
  obtain d' c' where b: "Play_body grow rnd oor q (d, c) = Inr (d', c')"
    and ca: "captured c' = calls (oscillator c) 1024 (captured c)"
    and bd: "bufdata d' (fresh d) = Some (fst (Play_fill rnd oor 0 (replicate 2048 0) c))"
    using Play_body_result [OF assms(1), of grow rnd oor d c] by blast
  have l: "length (fst (Play_fill rnd oor 0 (replicate 2048 0) c)) = 2048"
    by (simp add: Play_fill_length)
  have i: "0 + 2 * i + 1 < 2048" using assms(2) by simp
  have w: "fst (Play_fill rnd oor 0 (replicate 2048 0) c) ! (2 * i) =
             ucast (to_int16 oor (rnd (volume *
                fst (oscillator c (calls (oscillator c) i (captured c)))))) \<and>
           fst (Play_fill rnd oor 0 (replicate 2048 0) c) ! (2 * i + 1) =
             ucast (drop_bit 8 (to_int16 oor (rnd (volume *
                fst (oscillator c (calls (oscillator c) i (captured c)))))))"
    using Play_fill_written [OF i, of "replicate 2048 0" rnd oor c] by simp
  show ?thesis
    using b ca bd l w
    by (intro exI [of _ d'] exI [of _ c']
          exI [of _ "fst (Play_fill rnd oor 0 (replicate 2048 0) c)"])
       simp
qed

theorem Play_body_samples_witness:
  "(0::int) < 1 \<and> (0::nat) < 1024 \<and>
   (\<exists>d' c' buf. Play_body double_cap exact wrap16 1 (idle_device, NewContext 1 quarter ())
        = Inr (d', c') \<and>
      bufdata d' 1 = Some buf \<and> length buf = 2048 \<and> buf ! 0 = 0x97 \<and> buf ! 1 = 0x5A)"
proof -
  have lo: "(ucast (to_int16 wrap16 (exact (volume / 4))) :: 8 word) = 0x97"
    and hi: "(ucast (drop_bit 8 (to_int16 wrap16 (exact (volume / 4)))) :: 8 word) = 0x5A"
    by (simp_all add: to_int16_def trunc_def exact_def volume_def)
  show ?thesis
    using Play_body_samples [of 1 0 double_cap exact wrap16 idle_device "NewContext 1 quarter ()"]
    by (simp add: NewContext_fields quarter_def idle_device_def lo hi)
qed

end
